theory Spec2Isabelle
  imports Main
begin

section \<open>DisneyLiveDB: a local replica of a remote document store\<close>

text \<open>
  The class \<open>DisneyLiveDB\<close> keeps a local PouchDB database in step with a remote one.
  Its methods are JavaScript \<open>async\<close> functions: a call runs synchronously up to its first
  \<open>await\<close>, hands a promise back to its caller, and goes on later, when the awaited
  promise has settled. The model below keeps that structure. The object's fields, the
  promises, the suspended function bodies and the input/output operations in flight are
  one record; every piece of code that runs without interruption (a call up to its first
  \<open>await\<close>, or a body between two \<open>await\<close>s) is one function on that record; the event
  loop is a step function whose events are chosen by the environment.
\<close>

subsection \<open>Documents, promises, files\<close>

type_synonym docid = string
type_synonym body = string
type_synonym store = "docid \<rightharpoonup> body"
type_synonym pid = nat

datatype error =
    TransportError | SerializationError | IOError | NoEntry | NotFoundError

text \<open>What a promise settles with: a value (a document body where there is one) or an error.\<close>

datatype outcome = Fulfilled "body option" | Rejected error

text \<open>A file of the dump directory: a complete snapshot of a store, or an unfinished one.\<close>

datatype dumpfile = Snapshot store | Partial

subsection \<open>Configuration\<close>

record options =
  opt_dbName :: "string option"
  opt_host :: "string option"
  opt_username :: "string option"
  opt_password :: "string option"
  opt_useragent :: "string option"
  opt_checkpointTime :: "nat option"

record config =
  dbName :: string
  host :: string
  username :: string
  password :: string
  useragent :: string
  checkpointTime :: nat

text \<open>\<open>x || d\<close> on an optional string and on an optional number: the empty string and 0 are falsy.\<close>

definition or_string :: "string option \<Rightarrow> string \<Rightarrow> string" where
  "or_string x d = (case x of None \<Rightarrow> d | Some v \<Rightarrow> if v = [] then d else v)"

definition or_nat :: "nat option \<Rightarrow> nat \<Rightarrow> nat" where
  "or_nat x d = (case x of None \<Rightarrow> d | Some v \<Rightarrow> if v = 0 then d else v)"

text \<open>
  The defaults of the constructor. The base class \<open>ConfigBase\<close> is not part of the sources
  at hand; the configuration is taken to be the options after these defaults.
\<close>

definition defaults :: "options \<Rightarrow> config" where
  "defaults opts =
     \<lparr> dbName = or_string (opt_dbName opts) ''wdw'',
       host = or_string (opt_host opts) '''',
       username = or_string (opt_username opts) '''',
       password = or_string (opt_password opts) '''',
       useragent = or_string (opt_useragent opts)
         ''CouchbaseLite/1.3 (1.4.1/8a21c5927a273a038fb3b66ec29c86425e871b11)'',
       checkpointTime = or_nat (opt_checkpointTime opts) (1000 * 60 * 15) \<rparr>"

definition getDumpFilename :: "config \<Rightarrow> string \<Rightarrow> string" where
  "getDumpFilename c postfix = ''localdb/'' @ dbName c @ postfix @ ''.db''"

subsection \<open>Suspended function bodies and operations in flight\<close>

text \<open>
  A frame is a function body suspended at an \<open>await\<close>; it carries the promise that the
  function call returned to its caller. \<open>Adopt q\<close> is the pending resolution of \<open>q\<close> with
  another promise: what \<open>return p\<close> does in an \<open>async\<close> function.
\<close>

datatype frame =
    Adopt pid
  | InitAwaitSync pid
  | LoadAndInitAwaitLoad pid
  | LoadAndInitAwaitReplicate pid
  | LoadAndInitAwaitDump pid
  | LoadAwaitAccess pid
  | DumpAwaitWrite pid
  | SchedAwaitDelay pid
  | SchedAwaitInit pid
  | SchedAwaitDump pid
  | GetAwaitInit pid docid
  | GetAwaitLocalGet pid

datatype ioop =
    FsAccess
  | PouchLoad
  | PouchReplicate
  | PouchDump
  | FsRename
  | Timer nat
  | PouchGet docid

text \<open>What the object starts, in the order in which it starts it.\<close>

datatype effect =
    StartSync
  | RestoreFromDisk
  | BatchReplication
  | SnapshotWrite
  | SnapshotRename
  | MarkSynced
  | LiveReplication
  | SchedulerWait nat
  | SchedulerInit
  | SchedulerDump

record state =
  config :: config
  synced :: bool
  initPromiseSync :: "pid option"
  databaseDumpPendingPromise :: "pid option"
  live :: bool
  localDB :: store
  remoteDB :: store
  files :: "string \<rightharpoonup> dumpfile"
  promises :: "pid \<rightharpoonup> outcome"
  next_pid :: pid
  awaiting :: "(frame \<times> pid) list"
  io :: "(pid \<times> ioop) list"
  ticks :: nat
  now :: nat
  log :: "effect list"
  init_results :: "pid list"
  get_results :: "pid list"
  dump_started :: "(pid \<times> pid) list"
  dump_joined :: "(pid \<times> pid) list"
  dump_renamed :: "(pid \<times> pid) list"
  sync_promise :: "pid option"

text \<open>
  The last six fields are bookkeeping and are never read by the code: the promises that the
  calls of \<open>init\<close> and \<open>get\<close> returned; for every call of \<open>dump\<close> that started a
  write, the promise it returned with the promise of the write, and later with the promise
  of its rename; for every call of \<open>dump\<close> that found a dump pending, the promise it
  returned with the pending one; and the promise of the one call of \<open>_loadAndInit\<close>
  (\<open>initPromiseSync\<close> forgets it once the synchronisation is over).
\<close>

subsection \<open>Promises\<close>

text \<open>A new promise is the next unused handle: \<open>next_pid\<close> is read and advanced.\<close>

text \<open>A promise settles once; later resolutions are ignored.\<close>

definition settle :: "pid \<Rightarrow> outcome \<Rightarrow> state \<Rightarrow> state" where
  "settle p out s =
     (case promises s p of
        None \<Rightarrow> s\<lparr>promises := (promises s)(p \<mapsto> out)\<rparr>
      | Some _ \<Rightarrow> s)"

definition await :: "frame \<Rightarrow> pid \<Rightarrow> state \<Rightarrow> state" where
  "await k p s = s\<lparr>awaiting := awaiting s @ [(k, p)]\<rparr>"

definition start_io :: "ioop \<Rightarrow> state \<Rightarrow> pid \<times> state" where
  "start_io opn s = (next_pid s, s\<lparr>next_pid := Suc (next_pid s), io := io s @ [(next_pid s, opn)]\<rparr>)"

definition emit :: "effect \<Rightarrow> state \<Rightarrow> state" where
  "emit x s = s\<lparr>log := log s @ [x]\<rparr>"

subsection \<open>The methods of the class\<close>

text \<open>
  \<open>dump\<close>: a dump already pending is returned to the caller; otherwise the database is
  written to the new file, the promise of that write is kept in
  \<open>databaseDumpPendingPromise\<close> and awaited. Opening the write stream creates the new file.
\<close>

definition dump :: "state \<Rightarrow> pid \<times> state" where
  "dump s0 =
     (let q = next_pid s0;
          s1 = s0\<lparr>next_pid := Suc q\<rparr>
      in case databaseDumpPendingPromise s1 of
           Some p \<Rightarrow> (q, await (Adopt q) p (s1\<lparr>dump_joined := dump_joined s1 @ [(q, p)]\<rparr>))
         | None \<Rightarrow>
             (let dumpPathNew = getDumpFilename (config s1) ''_new'';
                  s2 = s1\<lparr>files := (files s1)(dumpPathNew \<mapsto> Partial)\<rparr>;
                  w = next_pid s2;
                  s3 = snd (start_io PouchDump s2);
                  s4 = emit SnapshotWrite s3;
                  s5 = s4\<lparr>databaseDumpPendingPromise := Some w,
                          dump_started := dump_started s4 @ [(q, w)]\<rparr>
              in (q, await (DumpAwaitWrite q) w s5)))"

text \<open>After \<open>await this.databaseDumpPendingPromise\<close>: a failed write is thrown; otherwise
  the handle is cleared and the promise of the rename is returned.\<close>

definition dump_after_write :: "pid \<Rightarrow> outcome \<Rightarrow> state \<Rightarrow> state" where
  "dump_after_write q out s =
     (case out of
        Rejected e \<Rightarrow> settle q (Rejected e) s
      | Fulfilled _ \<Rightarrow>
          (let s1 = s\<lparr>databaseDumpPendingPromise := None\<rparr>;
               r = next_pid s1;
               s2 = snd (start_io FsRename s1);
               s3 = emit SnapshotRename s2
           in await (Adopt q) r (s3\<lparr>dump_renamed := dump_renamed s3 @ [(q, r)]\<rparr>)))"

text \<open>\<open>load\<close>: without a dump file it returns at once; otherwise it returns the promise of
  the library's \<open>load\<close>.\<close>

definition load :: "state \<Rightarrow> pid \<times> state" where
  "load s0 =
     (let q = next_pid s0;
          s1 = s0\<lparr>next_pid := Suc q\<rparr>;
          a = next_pid s1;
          s2 = snd (start_io FsAccess s1)
      in (q, await (LoadAwaitAccess q) a s2))"

definition load_after_access :: "pid \<Rightarrow> outcome \<Rightarrow> state \<Rightarrow> state" where
  "load_after_access q out s =
     (case out of
        Rejected e \<Rightarrow> settle q (Fulfilled None) s
      | Fulfilled _ \<Rightarrow>
          (let l = next_pid s;
               s1 = snd (start_io PouchLoad s);
               s2 = emit RestoreFromDisk s1
           in await (Adopt q) l s2))"

text \<open>\<open>_loadAndInit\<close>: restore from disk, replicate once from the remote database, dump.\<close>

definition loadAndInit :: "state \<Rightarrow> pid \<times> state" where
  "loadAndInit s0 =
     (let q = next_pid s0;
          s1 = emit StartSync (s0\<lparr>next_pid := Suc q, sync_promise := Some q\<rparr>);
          (l, s2) = load s1
      in (q, await (LoadAndInitAwaitLoad q) l s2))"

definition loadAndInit_after_load :: "pid \<Rightarrow> outcome \<Rightarrow> state \<Rightarrow> state" where
  "loadAndInit_after_load q out s =
     (case out of
        Rejected e \<Rightarrow> settle q (Rejected e) s
      | Fulfilled _ \<Rightarrow>
          (let r = next_pid s;
               s1 = snd (start_io PouchReplicate s);
               s2 = emit BatchReplication s1
           in await (LoadAndInitAwaitReplicate q) r s2))"

definition loadAndInit_after_replicate :: "pid \<Rightarrow> outcome \<Rightarrow> state \<Rightarrow> state" where
  "loadAndInit_after_replicate q out s =
     (case out of
        Rejected e \<Rightarrow> settle q (Rejected e) s
      | Fulfilled _ \<Rightarrow> (let (d, s1) = dump s in await (LoadAndInitAwaitDump q) d s1))"

definition loadAndInit_after_dump :: "pid \<Rightarrow> outcome \<Rightarrow> state \<Rightarrow> state" where
  "loadAndInit_after_dump q out s = settle q out s"

text \<open>\<open>init\<close>: nothing to do when synced; a pending synchronisation is returned; otherwise
  \<open>_loadAndInit\<close> is called, its promise kept in \<open>initPromiseSync\<close> and awaited.\<close>

definition init :: "state \<Rightarrow> pid \<times> state" where
  "init s0 =
     (let q = next_pid s0;
          s1 = s0\<lparr>next_pid := Suc q, init_results := init_results s0 @ [q]\<rparr>
      in if synced s1 then (q, settle q (Fulfilled None) s1)
         else case initPromiseSync s1 of
           Some p \<Rightarrow> (q, await (Adopt q) p s1)
         | None \<Rightarrow>
             (let (p, s2) = loadAndInit s1;
                  s3 = s2\<lparr>initPromiseSync := Some p\<rparr>
              in (q, await (InitAwaitSync q) p s3)))"

text \<open>After \<open>await this.initPromiseSync\<close>: the handle is cleared, the object is marked
  synced, and the live replication is started without being awaited.\<close>

definition init_after_sync :: "pid \<Rightarrow> outcome \<Rightarrow> state \<Rightarrow> state" where
  "init_after_sync q out s =
     (case out of
        Rejected e \<Rightarrow> settle q (Rejected e) s
      | Fulfilled _ \<Rightarrow>
          (let s1 = s\<lparr>initPromiseSync := None\<rparr>;
               s2 = emit MarkSynced (s1\<lparr>synced := True\<rparr>);
               s3 = emit LiveReplication (s2\<lparr>live := True\<rparr>)
           in settle q (Fulfilled None) s3))"

text \<open>\<open>get\<close>: waits for \<open>init\<close>, then calls the library's \<open>get\<close> of the local database,
  \<open>this.localDB.get.apply(this, args)\<close>, and returns what it returns. The library binds
  the methods of a database handle to that handle, so the call reads the local database
  whatever receiver \<open>apply\<close> names.\<close>

definition get :: "docid \<Rightarrow> state \<Rightarrow> pid \<times> state" where
  "get ident s0 =
     (let q = next_pid s0;
          s1 = s0\<lparr>next_pid := Suc q, get_results := get_results s0 @ [q]\<rparr>;
          (i, s2) = init s1
      in (q, await (GetAwaitInit q ident) i s2))"

definition get_after_init :: "pid \<Rightarrow> docid \<Rightarrow> outcome \<Rightarrow> state \<Rightarrow> state" where
  "get_after_init q ident out s =
     (case out of
        Rejected e \<Rightarrow> settle q (Rejected e) s
      | Fulfilled _ \<Rightarrow>
          (let g = next_pid s;
               s1 = snd (start_io (PouchGet ident) s)
           in await (GetAwaitLocalGet q) g s1))"

definition get_after_localget :: "pid \<Rightarrow> outcome \<Rightarrow> state \<Rightarrow> state" where
  "get_after_localget q out s = settle q out s"

text \<open>\<open>delay\<close> is an \<open>async\<close> function that returns a promise resolved by a timer.\<close>

definition delay :: "nat \<Rightarrow> state \<Rightarrow> pid \<times> state" where
  "delay time s0 =
     (let d = next_pid s0;
          s1 = s0\<lparr>next_pid := Suc d\<rparr>;
          t = next_pid s1;
          s2 = snd (start_io (Timer (now s1 + time)) s1)
      in (d, await (Adopt d) t s2))"

text \<open>\<open>_scheduleDBDump\<close>: wait, make sure the database is initialised, dump, and call
  itself again on the next tick.\<close>

definition scheduleDBDump :: "state \<Rightarrow> state" where
  "scheduleDBDump s0 =
     (let q = next_pid s0;
          s1 = emit (SchedulerWait (checkpointTime (config s0))) (s0\<lparr>next_pid := Suc q\<rparr>);
          (d, s2) = delay (checkpointTime (config s1)) s1
      in await (SchedAwaitDelay q) d s2)"

definition sched_after_delay :: "pid \<Rightarrow> outcome \<Rightarrow> state \<Rightarrow> state" where
  "sched_after_delay q out s =
     (case out of
        Rejected e \<Rightarrow> settle q (Rejected e) s
      | Fulfilled _ \<Rightarrow>
          (let (i, s1) = init (emit SchedulerInit s) in await (SchedAwaitInit q) i s1))"

definition sched_after_init :: "pid \<Rightarrow> outcome \<Rightarrow> state \<Rightarrow> state" where
  "sched_after_init q out s =
     (case out of
        Rejected e \<Rightarrow> settle q (Rejected e) s
      | Fulfilled _ \<Rightarrow>
          (let (d, s1) = dump (emit SchedulerDump s) in await (SchedAwaitDump q) d s1))"

definition sched_after_dump :: "pid \<Rightarrow> outcome \<Rightarrow> state \<Rightarrow> state" where
  "sched_after_dump q out s =
     (case out of
        Rejected e \<Rightarrow> settle q (Rejected e) s
      | Fulfilled _ \<Rightarrow> settle q (Fulfilled None) (s\<lparr>ticks := Suc (ticks s)\<rparr>))"

text \<open>The constructor: the fields are set and the dump scheduler is started. The local
  database is kept on disk and the remote one is somebody else's, so both come with
  contents, as does the dump directory.\<close>

definition construct :: "options \<Rightarrow> store \<Rightarrow> store \<Rightarrow> (string \<rightharpoonup> dumpfile) \<Rightarrow> state" where
  "construct opts local remote fs =
     scheduleDBDump
       \<lparr> config = defaults opts,
         synced = False,
         initPromiseSync = None,
         databaseDumpPendingPromise = None,
         live = False,
         localDB = local,
         remoteDB = remote,
         files = fs,
         promises = Map.empty,
         next_pid = 0,
         awaiting = [],
         io = [],
         ticks = 0,
         now = 0,
         log = [],
         init_results = [],
         get_results = [],
         dump_started = [],
         dump_joined = [],
         dump_renamed = [],
         sync_promise = None \<rparr>"

subsection \<open>The libraries and the file system\<close>

text \<open>
  Modelled from the spec: PouchDB, its replication stream plugin and the file system are
  not part of the sources. A batch replication pulls the remote documents into the local
  store, the remote revision winning; a dump writes the full content of the local store to
  the file; a load puts the content of the file into the local store; a rename replaces the
  target by the source in one step. The \<open>get\<close> of the local database reads the local
  store by id and fails with NotFound if the id is absent.
\<close>

definition pouch_get :: "docid \<Rightarrow> state \<Rightarrow> outcome" where
  "pouch_get ident s =
     (case localDB s ident of
        None \<Rightarrow> Rejected NotFoundError
      | Some b \<Rightarrow> Fulfilled (Some b))"

text \<open>The end of an operation: its effect on the stores and the files, and the outcome of
  its promise. The environment may make any operation but a timer fail.\<close>

definition complete :: "pid \<Rightarrow> ioop \<Rightarrow> error option \<Rightarrow> state \<Rightarrow> state" where
  "complete p opn failure s =
     (let dumpPath = getDumpFilename (config s) '''';
          dumpPathNew = getDumpFilename (config s) ''_new''
      in case opn of
           Timer t \<Rightarrow> settle p (Fulfilled None) s
         | _ \<Rightarrow>
        (case failure of
           Some e \<Rightarrow> settle p (Rejected e) s
         | None \<Rightarrow>
        (case opn of
           FsAccess \<Rightarrow>
             (case files s dumpPath of
                None \<Rightarrow> settle p (Rejected NoEntry) s
              | Some _ \<Rightarrow> settle p (Fulfilled None) s)
         | PouchLoad \<Rightarrow>
             (case files s dumpPath of
                None \<Rightarrow> settle p (Rejected NoEntry) s
              | Some Partial \<Rightarrow> settle p (Rejected SerializationError) s
              | Some (Snapshot m) \<Rightarrow> settle p (Fulfilled None) (s\<lparr>localDB := localDB s ++ m\<rparr>))
         | PouchReplicate \<Rightarrow>
             settle p (Fulfilled None) (s\<lparr>localDB := localDB s ++ remoteDB s\<rparr>)
         | PouchDump \<Rightarrow>
             settle p (Fulfilled None)
               (s\<lparr>files := (files s)(dumpPathNew \<mapsto> Snapshot (localDB s))\<rparr>)
         | FsRename \<Rightarrow>
             (case files s dumpPathNew of
                None \<Rightarrow> settle p (Rejected NoEntry) s
              | Some f \<Rightarrow>
                  settle p (Fulfilled None)
                    (s\<lparr>files := (files s)(dumpPathNew := None, dumpPath \<mapsto> f)\<rparr>))
         | PouchGet ident \<Rightarrow> settle p (pouch_get ident s) s
         | Timer t \<Rightarrow> settle p (Fulfilled None) s)))"

subsection \<open>The event loop\<close>

text \<open>Going on with a suspended body, given the outcome of the promise it awaited.\<close>

fun resume :: "frame \<Rightarrow> outcome \<Rightarrow> state \<Rightarrow> state" where
  "resume (Adopt q) out s = settle q out s"
| "resume (InitAwaitSync q) out s = init_after_sync q out s"
| "resume (LoadAndInitAwaitLoad q) out s = loadAndInit_after_load q out s"
| "resume (LoadAndInitAwaitReplicate q) out s = loadAndInit_after_replicate q out s"
| "resume (LoadAndInitAwaitDump q) out s = loadAndInit_after_dump q out s"
| "resume (LoadAwaitAccess q) out s = load_after_access q out s"
| "resume (DumpAwaitWrite q) out s = dump_after_write q out s"
| "resume (SchedAwaitDelay q) out s = sched_after_delay q out s"
| "resume (SchedAwaitInit q) out s = sched_after_init q out s"
| "resume (SchedAwaitDump q) out s = sched_after_dump q out s"
| "resume (GetAwaitInit q ident) out s = get_after_init q ident out s"
| "resume (GetAwaitLocalGet q) out s = get_after_localget q out s"

text \<open>Removing the k-th element of a list.\<close>

definition drop_nth :: "nat \<Rightarrow> 'a list \<Rightarrow> 'a list" where
  "drop_nth k xs = take k xs @ drop (Suc k) xs"

text \<open>
  The events. Collaborators call \<open>init\<close>, \<open>get\<close>, \<open>dump\<close> and \<open>load\<close> at any moment;
  \<open>Resume k\<close> goes on with the k-th suspended body if the promise it awaits has settled
  (the order among the bodies that can go on is left open, which covers the order of the
  microtask queue); \<open>IODone p failure\<close> ends the operation behind the promise \<open>p\<close>, failing with
  \<open>e\<close> when \<open>failure = Some e\<close>, a timer only once its time has come; \<open>NextTick\<close> runs a
  callback given to \<open>process.nextTick\<close>; \<open>Advance d\<close> lets time pass; the remote database
  changes, and a running live replication delivers changes or breaks and reconnects.
\<close>

datatype event =
    CallInit
  | CallGet docid
  | CallDump
  | CallLoad
  | Resume nat
  | IODone pid "error option"
  | NextTick
  | Advance nat
  | RemoteUpdate docid body
  | LiveDeliver
  | LiveError error

fun step :: "event \<Rightarrow> state \<Rightarrow> state" where
  "step CallInit s = snd (init s)"
| "step (CallGet ident) s = snd (get ident s)"
| "step CallDump s = snd (dump s)"
| "step CallLoad s = snd (load s)"
| "step (Resume k) s =
     (if k < length (awaiting s) then
        (case promises s (snd (awaiting s ! k)) of
           None \<Rightarrow> s
         | Some out \<Rightarrow>
             resume (fst (awaiting s ! k)) out (s\<lparr>awaiting := drop_nth k (awaiting s)\<rparr>))
      else s)"
| "step (IODone p failure) s =
     (case map_of (io s) p of
        None \<Rightarrow> s
      | Some (Timer t) \<Rightarrow>
          (if now s < t then s
           else complete p (Timer t) failure (s\<lparr>io := filter (\<lambda>x. fst x \<noteq> p) (io s)\<rparr>))
      | Some opn \<Rightarrow> complete p opn failure (s\<lparr>io := filter (\<lambda>x. fst x \<noteq> p) (io s)\<rparr>))"
| "step NextTick s =
     (case ticks s of 0 \<Rightarrow> s | Suc n \<Rightarrow> scheduleDBDump (s\<lparr>ticks := n\<rparr>))"
| "step (Advance d) s = s\<lparr>now := now s + d\<rparr>"
| "step (RemoteUpdate ident b) s = s\<lparr>remoteDB := (remoteDB s)(ident \<mapsto> b)\<rparr>"
| "step LiveDeliver s = (if live s then s\<lparr>localDB := localDB s ++ remoteDB s\<rparr> else s)"
| "step (LiveError e) s = s"

fun run :: "event list \<Rightarrow> state \<Rightarrow> state" where
  "run [] s = s"
| "run (e # es) s = run es (step e s)"


section \<open>Runs of the event loop\<close>

text \<open>A cold start without a dump file, each suspended body going on as soon as it can:
  \<open>init\<close> is called, the dump file is looked for and not found, the remote database is
  replicated, the local one is written to the new file, the new file is renamed, and the
  bodies of \<open>dump\<close>, \<open>_loadAndInit\<close> and \<open>init\<close> return in turn.\<close>

definition cold_sync :: "event list" where
  "cold_sync =
     [CallInit, IODone 6 None, Resume 2, Resume 2, IODone 7 None, Resume 3,
      IODone 9 None, Resume 3, IODone 10 None, Resume 4, Resume 3, Resume 2]"

text \<open>The same start with a dump file on disk: the file is found and loaded into the local
  database before the replication.\<close>

definition warm_sync :: "event list" where
  "warm_sync =
     [CallInit, IODone 6 None, Resume 2, IODone 7 None, Resume 4, Resume 2, IODone 8 None,
      Resume 3, IODone 10 None, Resume 3, IODone 11 None, Resume 4, Resume 3, Resume 2]"

text \<open>A call of \<open>get\<close> made when \<open>k\<close> bodies are suspended and \<open>n\<close> is the next unused
  handle: the call, the body of \<open>get\<close> going on after \<open>init\<close>, the end of the library's
  \<open>get\<close>, and the body of \<open>get\<close> returning.\<close>

definition get_run :: "nat \<Rightarrow> pid \<Rightarrow> docid \<Rightarrow> event list" where
  "get_run k n ident = [CallGet ident, Resume k, IODone (n + 2) None, Resume k]"

definition no_options :: options where
  "no_options =
     \<lparr> opt_dbName = None, opt_host = None, opt_username = None, opt_password = None,
       opt_useragent = None, opt_checkpointTime = None \<rparr>"

definition two_rides :: store where
  "two_rides = [''A'' \<mapsto> ''OPERATING'', ''B'' \<mapsto> ''CLOSED'']"

section \<open>Invariants of the event loop\<close>

text \<open>The promise a suspended body settles when it returns or throws.\<close>

fun target :: "frame \<Rightarrow> pid" where
  "target (Adopt q) = q"
| "target (InitAwaitSync q) = q"
| "target (LoadAndInitAwaitLoad q) = q"
| "target (LoadAndInitAwaitReplicate q) = q"
| "target (LoadAndInitAwaitDump q) = q"
| "target (LoadAwaitAccess q) = q"
| "target (DumpAwaitWrite q) = q"
| "target (SchedAwaitDelay q) = q"
| "target (SchedAwaitInit q) = q"
| "target (SchedAwaitDump q) = q"
| "target (GetAwaitInit q ident) = q"
| "target (GetAwaitLocalGet q) = q"


definition bound_io :: "state \<Rightarrow> bool" where
  "bound_io s \<longleftrightarrow> (\<forall>x\<in>set (io s). fst x < next_pid s)"

definition bound_targets :: "state \<Rightarrow> bool" where
  "bound_targets s \<longleftrightarrow> (\<forall>x\<in>set (awaiting s). target (fst x) < next_pid s)"


definition io_pending :: "state \<Rightarrow> bool" where
  "io_pending s \<longleftrightarrow>
     (\<forall>x\<in>set (io s). promises s (fst x) = None \<and> (\<forall>y\<in>set (awaiting s). target (fst y) \<noteq> fst x))
     \<and> (\<forall>p. next_pid s \<le> p \<longrightarrow> promises s p = None)"

definition distinct_io :: "state \<Rightarrow> bool" where
  "distinct_io s \<longleftrightarrow> distinct (map fst (io s))"

definition distinct_targets :: "state \<Rightarrow> bool" where
  "distinct_targets s \<longleftrightarrow> distinct (map (\<lambda>x. target (fst x)) (awaiting s))"


text \<open>Handles are handed out in increasing order; an operation in flight has a pending
  promise that no suspended body settles; no two operations share a promise, and no two
  suspended bodies belong to the same call.\<close>

definition wf :: "state \<Rightarrow> bool" where
  "wf s \<longleftrightarrow> bound_io s \<and> bound_targets s \<and> io_pending s \<and> distinct_io s \<and> distinct_targets s"


text \<open>The body of \<open>dump\<close> that waits for a write waits for the write kept in
  \<open>databaseDumpPendingPromise\<close>; there is at most one such body, and a write in flight is
  the one kept there.\<close>

fun is_dump_await :: "frame \<Rightarrow> bool" where
  "is_dump_await (DumpAwaitWrite q) = True"
| "is_dump_await _ = False"

definition dump_inv :: "state \<Rightarrow> bool" where
  "dump_inv s \<longleftrightarrow>
     (\<forall>x\<in>set (awaiting s). is_dump_await (fst x) \<longrightarrow> databaseDumpPendingPromise s = Some (snd x))
   \<and> length (filter (\<lambda>x. is_dump_await (fst x)) (awaiting s)) \<le> 1
   \<and> (\<forall>x\<in>set (io s). snd x = PouchDump \<longrightarrow> databaseDumpPendingPromise s = Some (fst x))"


text \<open>A call of \<open>dump\<close> that found a dump pending: only the adoption of the pending
  promise settles the promise the call returned, and with the same outcome.\<close>

definition joined_bound :: "state \<Rightarrow> bool" where
  "joined_bound s \<longleftrightarrow> (\<forall>x\<in>set (dump_joined s). fst x < next_pid s)"

definition joined_frames :: "state \<Rightarrow> bool" where
  "joined_frames s \<longleftrightarrow>
     (\<forall>x\<in>set (dump_joined s). \<forall>y\<in>set (awaiting s).
        target (fst y) = fst x \<longrightarrow> fst y = Adopt (fst x) \<and> snd y = snd x)"

definition joined_io :: "state \<Rightarrow> bool" where
  "joined_io s \<longleftrightarrow> (\<forall>x\<in>set (dump_joined s). \<forall>y\<in>set (io s). fst y \<noteq> fst x)"

definition joined_outcome :: "state \<Rightarrow> bool" where
  "joined_outcome s \<longleftrightarrow>
     (\<forall>x\<in>set (dump_joined s). \<forall>out.
        promises s (fst x) = Some out \<longrightarrow> promises s (snd x) = Some out)"


text \<open>Once the write kept in \<open>databaseDumpPendingPromise\<close> has failed, no step clears the
  handle or starts a write, and every further call of \<open>dump\<close> joins the failed write.\<close>

definition dump_stuck :: "pid \<Rightarrow> state \<Rightarrow> state \<Rightarrow> bool" where
  "dump_stuck p s s' \<longleftrightarrow>
     databaseDumpPendingPromise s' = Some p
   \<and> count_list (log s') SnapshotWrite = count_list (log s) SnapshotWrite
   \<and> dump_started s' = dump_started s
   \<and> take (length (dump_joined s)) (dump_joined s') = dump_joined s
   \<and> (\<forall>x\<in>set (drop (length (dump_joined s)) (dump_joined s')). snd x = p)"


definition dump_ok :: "state \<Rightarrow> bool" where
  "dump_ok s \<longleftrightarrow>
     wf s \<and> dump_inv s \<and> joined_bound s \<and> joined_io s \<and> joined_frames s \<and> joined_outcome s"










section \<open>Evaluation\<close>

lemmas model_defs =
  construct_def scheduleDBDump_def delay_def defaults_def or_nat_def or_string_def
  init_def loadAndInit_def load_def dump_def get_def
  init_after_sync_def loadAndInit_after_load_def loadAndInit_after_replicate_def
  loadAndInit_after_dump_def load_after_access_def dump_after_write_def
  sched_after_delay_def sched_after_init_def sched_after_dump_def
  get_after_init_def get_after_localget_def
  settle_def await_def start_io_def emit_def complete_def pouch_get_def drop_nth_def
  getDumpFilename_def Let_def

lemma run_append: "run (es @ fs) s = run fs (run es s)"
  by (induction es arbitrary: s) simp_all

section \<open>The basic invariants hold in every run\<close>

lemma in_drop_nth: "x \<in> set (drop_nth k xs) \<Longrightarrow> x \<in> set xs"
  unfolding drop_nth_def by (auto dest: in_set_takeD in_set_dropD)

lemma step_cases:
  assumes "P s"
    and "P (snd (init s))"
    and "\<And>ident. P (snd (get ident s))"
    and "P (snd (dump s))"
    and "P (snd (load s))"
    and "\<And>k out. k < length (awaiting s) \<Longrightarrow> promises s (snd (awaiting s ! k)) = Some out \<Longrightarrow>
           P (resume (fst (awaiting s ! k)) out (s\<lparr>awaiting := drop_nth k (awaiting s)\<rparr>))"
    and "\<And>p opn failure. map_of (io s) p = Some opn \<Longrightarrow>
           P (complete p opn failure (s\<lparr>io := filter (\<lambda>x. fst x \<noteq> p) (io s)\<rparr>))"
    and "\<And>n. ticks s = Suc n \<Longrightarrow> P (scheduleDBDump (s\<lparr>ticks := n\<rparr>))"
    and "\<And>d. P (s\<lparr>now := now s + d\<rparr>)"
    and "\<And>ident b. P (s\<lparr>remoteDB := (remoteDB s)(ident \<mapsto> b)\<rparr>)"
    and "P (s\<lparr>localDB := localDB s ++ remoteDB s\<rparr>)"
  shows "P (step e s)"
proof (cases e)
  case (IODone p failure)
  then show ?thesis using assms(1,7)
    by (auto split: option.splits ioop.splits)
next
  case NextTick
  then show ?thesis using assms(1,8) by (auto split: nat.splits)
qed (use assms in \<open>auto split: option.splits\<close>)

lemmas fn_defs =
  scheduleDBDump_def delay_def
  init_def loadAndInit_def load_def dump_def get_def
  init_after_sync_def loadAndInit_after_load_def loadAndInit_after_replicate_def
  loadAndInit_after_dump_def load_after_access_def dump_after_write_def
  sched_after_delay_def sched_after_init_def sched_after_dump_def
  get_after_init_def get_after_localget_def
  settle_def await_def start_io_def emit_def complete_def Let_def


lemma bound_io_step: "bound_io s \<Longrightarrow> bound_io (step e s)"
proof (rule step_cases)
  fix k out
  assume "bound_io s"
  then show "bound_io (resume (fst (awaiting s ! k)) out (s\<lparr>awaiting := drop_nth k (awaiting s)\<rparr>))"
    by (cases "fst (awaiting s ! k)"; cases out)
       (auto simp: bound_io_def fn_defs split: option.splits)
next
  fix p opn failure
  assume "bound_io s"
  then show "bound_io (complete p opn failure (s\<lparr>io := filter (\<lambda>x. fst x \<noteq> p) (io s)\<rparr>))"
    by (cases opn; cases failure)
       (auto simp: bound_io_def fn_defs pouch_get_def split: option.splits dumpfile.splits)
qed (auto simp: bound_io_def fn_defs split: option.splits)

lemma bound_targets_step: "bound_targets s \<Longrightarrow> bound_targets (step e s)"
proof (rule step_cases)
  fix k out
  assume a: "bound_targets s" "k < length (awaiting s)"
  then have "target (fst (awaiting s ! k)) < next_pid s"
    unfolding bound_targets_def by simp
  then show "bound_targets (resume (fst (awaiting s ! k)) out (s\<lparr>awaiting := drop_nth k (awaiting s)\<rparr>))"
    using a(1)
    by (cases "fst (awaiting s ! k)"; cases out)
       (auto simp: bound_targets_def fn_defs split: option.splits dest!: in_drop_nth)
next
  fix p opn failure
  assume "bound_targets s"
  then show "bound_targets (complete p opn failure (s\<lparr>io := filter (\<lambda>x. fst x \<noteq> p) (io s)\<rparr>))"
    by (cases opn; cases failure)
       (auto simp: bound_targets_def fn_defs pouch_get_def split: option.splits dumpfile.splits)
qed (auto simp: bound_targets_def fn_defs split: option.splits)


lemma drop_nth_distinct:
  assumes "distinct (map f xs)" "k < length xs"
  shows "distinct (map f (drop_nth k xs))" "f (xs ! k) \<notin> f ` set (drop_nth k xs)"
proof -
  have xs: "xs = take k xs @ xs ! k # drop (Suc k) xs"
    using assms(2) by (simp add: id_take_nth_drop)
  have d: "distinct (map f (take k xs @ xs ! k # drop (Suc k) xs))"
    using assms(1) xs by simp
  show "distinct (map f (drop_nth k xs))" using d unfolding drop_nth_def by auto
  show "f (xs ! k) \<notin> f ` set (drop_nth k xs)" using d unfolding drop_nth_def by auto
qed

lemma io_pending_step:
  assumes "io_pending s" "bound_io s" "bound_targets s"
  shows "io_pending (step e s)"
proof (rule step_cases)
  fix k out
  assume a: "k < length (awaiting s)"
  then have t: "target (fst (awaiting s ! k)) < next_pid s"
    "\<forall>x\<in>set (io s). target (fst (awaiting s ! k)) \<noteq> fst x"
    using assms unfolding bound_targets_def io_pending_def by auto
  show "io_pending (resume (fst (awaiting s ! k)) out (s\<lparr>awaiting := drop_nth k (awaiting s)\<rparr>))"
    using assms t
    by (cases "fst (awaiting s ! k)"; cases out)
       (auto simp: io_pending_def bound_io_def bound_targets_def fn_defs split: option.splits dest!: in_drop_nth)
next
  fix p opn failure
  assume "map_of (io s) p = Some opn"
  then have "(p, opn) \<in> set (io s)" by (rule map_of_SomeD)
  then have t: "p < next_pid s" "\<forall>y\<in>set (awaiting s). target (fst y) \<noteq> p"
    using assms unfolding bound_io_def io_pending_def by force+
  show "io_pending (complete p opn failure (s\<lparr>io := filter (\<lambda>x. fst x \<noteq> p) (io s)\<rparr>))"
    using assms t
    by (cases opn; cases failure)
       (auto simp: io_pending_def bound_io_def fn_defs pouch_get_def split: option.splits dumpfile.splits)
qed (use assms in \<open>auto simp: io_pending_def bound_io_def bound_targets_def fn_defs split: option.splits\<close>)

lemma distinct_io_step:
  assumes "distinct_io s" "bound_io s"
  shows "distinct_io (step e s)"
proof (rule step_cases)
  fix k out
  show "distinct_io (resume (fst (awaiting s ! k)) out (s\<lparr>awaiting := drop_nth k (awaiting s)\<rparr>))"
    using assms
    by (cases "fst (awaiting s ! k)"; cases out)
       (auto simp: distinct_io_def bound_io_def fn_defs split: option.splits)
next
  fix p opn failure
  show "distinct_io (complete p opn failure (s\<lparr>io := filter (\<lambda>x. fst x \<noteq> p) (io s)\<rparr>))"
    using assms
    by (cases opn; cases failure)
       (auto simp: distinct_io_def distinct_map_filter fn_defs pouch_get_def split: option.splits dumpfile.splits)
qed (use assms in \<open>auto simp: distinct_io_def bound_io_def fn_defs split: option.splits\<close>)

lemma distinct_targets_step:
  assumes "distinct_targets s" "bound_targets s"
  shows "distinct_targets (step e s)"
proof (rule step_cases)
  fix k out
  assume a: "k < length (awaiting s)"
  have d: "distinct (map (\<lambda>x. target (fst x)) (drop_nth k (awaiting s)))"
    "target (fst (awaiting s ! k)) \<notin> (\<lambda>x. target (fst x)) ` set (drop_nth k (awaiting s))"
    using drop_nth_distinct[OF _ a, of "\<lambda>x. target (fst x)"] assms(1)
    unfolding distinct_targets_def by auto
  have b: "\<forall>x\<in>set (drop_nth k (awaiting s)). target (fst x) < next_pid s"
    "target (fst (awaiting s ! k)) < next_pid s"
    using assms(2) a unfolding bound_targets_def by (auto dest: in_drop_nth)
  show "distinct_targets (resume (fst (awaiting s ! k)) out (s\<lparr>awaiting := drop_nth k (awaiting s)\<rparr>))"
    using d b
    by (cases "fst (awaiting s ! k)"; cases out)
       (auto simp: distinct_targets_def fn_defs split: option.splits)
next
  fix p opn failure
  show "distinct_targets (complete p opn failure (s\<lparr>io := filter (\<lambda>x. fst x \<noteq> p) (io s)\<rparr>))"
    using assms
    by (cases opn; cases failure)
       (auto simp: distinct_targets_def fn_defs pouch_get_def split: option.splits dumpfile.splits)
qed (use assms in \<open>auto simp: distinct_targets_def bound_targets_def fn_defs split: option.splits\<close>)

lemma wf_step: "wf s \<Longrightarrow> wf (step e s)"
  unfolding wf_def
  by (simp add: bound_io_step bound_targets_step io_pending_step distinct_io_step
      distinct_targets_step)

lemma wf_construct: "wf (construct opts local remote fs)"
  unfolding wf_def bound_io_def bound_targets_def io_pending_def distinct_io_def
    distinct_targets_def construct_def
  by (simp add: fn_defs)

lemma wf_run: "wf s \<Longrightarrow> wf (run es s)"
  by (induction es arbitrary: s) (simp_all add: wf_step)

lemma wf_reachable: "wf (run es (construct opts local remote fs))"
  by (simp add: wf_run wf_construct)

lemma promises_mono_resume:
  "promises s p = Some v \<Longrightarrow> promises (resume fr out s) p = Some v"
proof (cases out)
  case (Fulfilled w)
  assume "promises s p = Some v"
  with Fulfilled show ?thesis by (cases fr) (auto simp: fn_defs split: option.splits)
next
  case (Rejected e)
  assume "promises s p = Some v"
  with Rejected show ?thesis by (cases fr) (auto simp: fn_defs split: option.splits)
qed

lemma promises_mono_step: "promises s p = Some v \<Longrightarrow> promises (step e s) p = Some v"
proof (rule step_cases)
  fix p' opn failure
  assume "promises s p = Some v"
  then show "promises (complete p' opn failure (s\<lparr>io := filter (\<lambda>x. fst x \<noteq> p') (io s)\<rparr>)) p = Some v"
    by (cases opn; cases failure)
       (auto simp: fn_defs pouch_get_def split: option.splits dumpfile.splits)
qed (auto simp: promises_mono_resume, auto simp: fn_defs split: option.splits)

lemma promises_mono_run: "promises s p = Some v \<Longrightarrow> promises (run es s) p = Some v"
  by (induction es arbitrary: s) (simp_all add: promises_mono_step)


lemmas eval_defs = construct_def fn_defs pouch_get_def drop_nth_def cold_sync_def warm_sync_def
  get_run_def


section \<open>Dumps\<close>

lemma drop_nth_filter_le: "length (filter P (drop_nth k xs)) \<le> length (filter P xs)"
proof -
  have "length (filter P (drop (Suc k) xs)) \<le> length (filter P (drop k xs))"
    by (cases "k < length xs") (simp_all add: Cons_nth_drop_Suc[symmetric])
  moreover have "length (filter P xs) = length (filter P (take k xs)) + length (filter P (drop k xs))"
    by (metis append_take_drop_id filter_append length_append)
  ultimately show ?thesis unfolding drop_nth_def by simp
qed

lemma drop_nth_unique:
  assumes "length (filter P xs) \<le> 1" "k < length xs" "P (xs ! k)"
  shows "\<forall>x\<in>set (drop_nth k xs). \<not> P x"
proof -
  have xs: "xs = take k xs @ xs ! k # drop (Suc k) xs"
    using assms(2) by (simp add: id_take_nth_drop)
  have "length (filter P (take k xs @ xs ! k # drop (Suc k) xs)) \<le> 1"
    using assms(1) xs by simp
  then have "filter P (take k xs) = []" "filter P (drop (Suc k) xs) = []"
    using assms(3) by auto
  then show ?thesis unfolding drop_nth_def by (auto simp: filter_empty_conv)
qed

lemma dump_inv_step:
  assumes "dump_inv s" "wf s"
  shows "dump_inv (step e s)"
proof (rule step_cases)
  fix k out
  assume a: "k < length (awaiting s)" "promises s (snd (awaiting s ! k)) = Some out"
  let ?A = "drop_nth k (awaiting s)"
  have mem: "awaiting s ! k \<in> set (awaiting s)" using a(1) by simp
  have le: "length (filter (\<lambda>x. is_dump_await (fst x)) ?A) \<le> 1"
    using assms(1) drop_nth_filter_le[of "\<lambda>x. is_dump_await (fst x)" k "awaiting s"]
    unfolding dump_inv_def by simp
  have rest: "\<forall>x\<in>set ?A. is_dump_await (fst x) \<longrightarrow> databaseDumpPendingPromise s = Some (snd x)"
    using assms(1) unfolding dump_inv_def by (auto dest: in_drop_nth)
  have io: "\<forall>x\<in>set (io s). snd x = PouchDump \<longrightarrow> databaseDumpPendingPromise s = Some (fst x)"
    "\<forall>x\<in>set (io s). promises s (fst x) = None" "\<forall>x\<in>set (io s). fst x < next_pid s"
    using assms unfolding dump_inv_def wf_def io_pending_def bound_io_def by auto
  show "dump_inv (resume (fst (awaiting s ! k)) out (s\<lparr>awaiting := ?A\<rparr>))"
  proof (cases "is_dump_await (fst (awaiting s ! k))")
    case True
    then obtain q where q: "fst (awaiting s ! k) = DumpAwaitWrite q"
      by (cases "fst (awaiting s ! k)") auto
    have none: "\<forall>x\<in>set ?A. \<not> is_dump_await (fst x)"
      using drop_nth_unique[of "\<lambda>x. is_dump_await (fst x)" "awaiting s" k] assms(1) a(1) True
      unfolding dump_inv_def by simp
    have pend: "databaseDumpPendingPromise s = Some (snd (awaiting s ! k))"
      using assms(1) mem True unfolding dump_inv_def by blast
    have nodump: "\<forall>x\<in>set (io s). snd x \<noteq> PouchDump"
      using io pend a(2) by force
    have f0: "filter (\<lambda>x. is_dump_await (fst x)) ?A = []"
      using none by (simp add: filter_empty_conv)
    show ?thesis
      using q none nodump f0
      by (cases out) (auto simp: dump_inv_def fn_defs split: option.splits)
  next
    case False
    then show ?thesis
      using le rest io
      by (cases "fst (awaiting s ! k)"; cases out)
         (auto simp: dump_inv_def fn_defs split: option.splits)
  qed
next
  fix p opn failure
  show "dump_inv (complete p opn failure (s\<lparr>io := filter (\<lambda>x. fst x \<noteq> p) (io s)\<rparr>))"
    using assms(1)
    by (cases opn; cases failure)
       (auto simp: dump_inv_def fn_defs pouch_get_def split: option.splits dumpfile.splits)
qed (use assms in \<open>auto simp: dump_inv_def wf_def bound_io_def fn_defs split: option.splits\<close>)

lemma dump_inv_construct: "dump_inv (construct opts local remote fs)"
  unfolding dump_inv_def construct_def by (simp add: fn_defs)

lemma drop_nth_target:
  assumes "distinct_targets s" "k < length (awaiting s)"
  shows "\<forall>x\<in>set (drop_nth k (awaiting s)). target (fst x) \<noteq> target (fst (awaiting s ! k))"
proof -
  have "distinct (map (\<lambda>x. target (fst x)) (awaiting s))"
    using assms(1) unfolding distinct_targets_def .
  from drop_nth_distinct(2)[OF this assms(2)] show ?thesis by (auto simp: image_iff)
qed

lemma joined_bound_step:
  assumes "joined_bound s"
  shows "joined_bound (step e s)"
proof (rule step_cases)
  fix k out
  show "joined_bound (resume (fst (awaiting s ! k)) out (s\<lparr>awaiting := drop_nth k (awaiting s)\<rparr>))"
    using assms
    by (cases "fst (awaiting s ! k)"; cases out)
       (auto simp: joined_bound_def fn_defs split: option.splits)
next
  fix p opn failure
  show "joined_bound (complete p opn failure (s\<lparr>io := filter (\<lambda>x. fst x \<noteq> p) (io s)\<rparr>))"
    using assms
    by (cases opn; cases failure)
       (auto simp: joined_bound_def fn_defs pouch_get_def split: option.splits dumpfile.splits)
qed (use assms in \<open>auto simp: joined_bound_def fn_defs split: option.splits\<close>)

lemma joined_io_step:
  assumes "joined_io s" "joined_bound s" "bound_io s"
  shows "joined_io (step e s)"
proof (rule step_cases)
  fix k out
  show "joined_io (resume (fst (awaiting s ! k)) out (s\<lparr>awaiting := drop_nth k (awaiting s)\<rparr>))"
    using assms
    by (cases "fst (awaiting s ! k)"; cases out)
       (auto simp: joined_io_def joined_bound_def bound_io_def fn_defs split: option.splits)
next
  fix p opn failure
  show "joined_io (complete p opn failure (s\<lparr>io := filter (\<lambda>x. fst x \<noteq> p) (io s)\<rparr>))"
    using assms
    by (cases opn; cases failure)
       (auto simp: joined_io_def fn_defs pouch_get_def split: option.splits dumpfile.splits)
qed (use assms in \<open>auto simp: joined_io_def joined_bound_def bound_io_def fn_defs split: option.splits\<close>)


lemma joined_frames_resume:
  assumes "\<forall>x\<in>set (dump_joined s). \<forall>y\<in>set A.
        target (fst y) = fst x \<longrightarrow> fst y = Adopt (fst x) \<and> snd y = snd x"
   and "\<forall>x\<in>set (dump_joined s). fst x < next_pid s"
   and "\<forall>x\<in>set A. target (fst x) < next_pid s" "target fr < next_pid s"
   and "\<forall>y\<in>set A. target (fst y) \<noteq> target fr"
   and "\<forall>x\<in>set (dump_joined s). target fr = fst x \<longrightarrow> fr = Adopt (fst x)"
  shows "joined_frames (resume fr out (s\<lparr>awaiting := A\<rparr>))"
proof (cases out)
  case (Fulfilled v)
  with assms show ?thesis
    by (cases fr) (auto simp: joined_frames_def fn_defs split: option.splits)
next
  case (Rejected e)
  with assms show ?thesis
    by (cases fr) (auto simp: joined_frames_def fn_defs split: option.splits)
qed

lemma joined_frames_step:
  assumes "joined_frames s" "joined_bound s" "bound_targets s" "distinct_targets s"
  shows "joined_frames (step e s)"
proof (rule step_cases)
  fix k out
  assume a: "k < length (awaiting s)" "promises s (snd (awaiting s ! k)) = Some out"
  let ?A = "drop_nth k (awaiting s)"
  let ?y = "awaiting s ! k"
  have mem: "?y \<in> set (awaiting s)" using a(1) by simp
  have sub: "\<And>y. y \<in> set ?A \<Longrightarrow> y \<in> set (awaiting s)" by (rule in_drop_nth)
  show "joined_frames (resume (fst ?y) out (s\<lparr>awaiting := ?A\<rparr>))"
  proof (rule joined_frames_resume)
    show "\<forall>x\<in>set (dump_joined s). \<forall>y\<in>set ?A.
        target (fst y) = fst x \<longrightarrow> fst y = Adopt (fst x) \<and> snd y = snd x"
      using assms(1) sub unfolding joined_frames_def by blast
    show "\<forall>x\<in>set (dump_joined s). fst x < next_pid s"
      using assms(2) unfolding joined_bound_def .
    show "\<forall>x\<in>set ?A. target (fst x) < next_pid s"
      using assms(3) sub unfolding bound_targets_def by blast
    show "target (fst ?y) < next_pid s"
      using assms(3) mem unfolding bound_targets_def by blast
    show "\<forall>y\<in>set ?A. target (fst y) \<noteq> target (fst ?y)"
      using drop_nth_target[OF assms(4) a(1)] .
    show "\<forall>x\<in>set (dump_joined s). target (fst ?y) = fst x \<longrightarrow> fst ?y = Adopt (fst x)"
      using assms(1) mem unfolding joined_frames_def by blast
  qed
next
  fix p opn failure
  show "joined_frames (complete p opn failure (s\<lparr>io := filter (\<lambda>x. fst x \<noteq> p) (io s)\<rparr>))"
    using assms(1)
    by (cases opn; cases failure)
       (auto simp: joined_frames_def fn_defs pouch_get_def split: option.splits dumpfile.splits)
qed (use assms in \<open>auto simp: joined_frames_def joined_bound_def bound_targets_def
       fn_defs split: option.splits\<close>)

lemma joined_outcome_resume:
  assumes "\<forall>x\<in>set (dump_joined s). \<forall>v.
        promises s (fst x) = Some v \<longrightarrow> promises s (snd x) = Some v"
   and "\<forall>x\<in>set (dump_joined s). fst x < next_pid s"
   and "\<forall>p. next_pid s \<le> p \<longrightarrow> promises s p = None"
   and "\<forall>x\<in>set (dump_joined s). target fr = fst x \<longrightarrow> fr = Adopt (fst x) \<and> promises s (snd x) = Some out"
  shows "joined_outcome (resume fr out (s\<lparr>awaiting := A\<rparr>))"
proof (cases out)
  case (Fulfilled v)
  with assms show ?thesis
    by (cases fr) (auto simp: joined_outcome_def fn_defs split: option.splits)
next
  case (Rejected e)
  with assms show ?thesis
    by (cases fr) (auto simp: joined_outcome_def fn_defs split: option.splits)
qed

lemma joined_outcome_step:
  assumes "joined_outcome s" "joined_frames s" "joined_io s" "joined_bound s" "io_pending s"
  shows "joined_outcome (step e s)"
proof (rule step_cases)
  fix k out
  assume a: "k < length (awaiting s)" "promises s (snd (awaiting s ! k)) = Some out"
  let ?A = "drop_nth k (awaiting s)"
  let ?y = "awaiting s ! k"
  have mem: "?y \<in> set (awaiting s)" using a(1) by simp
  show "joined_outcome (resume (fst ?y) out (s\<lparr>awaiting := ?A\<rparr>))"
  proof (rule joined_outcome_resume)
    show "\<forall>x\<in>set (dump_joined s). \<forall>v.
        promises s (fst x) = Some v \<longrightarrow> promises s (snd x) = Some v"
      using assms(1) unfolding joined_outcome_def .
    show "\<forall>x\<in>set (dump_joined s). fst x < next_pid s"
      using assms(4) unfolding joined_bound_def .
    show "\<forall>p. next_pid s \<le> p \<longrightarrow> promises s p = None"
      using assms(5) unfolding io_pending_def by blast
    show "\<forall>x\<in>set (dump_joined s). target (fst ?y) = fst x \<longrightarrow>
            fst ?y = Adopt (fst x) \<and> promises s (snd x) = Some out"
      using assms(2) mem a(2) unfolding joined_frames_def by metis
  qed
next
  fix p opn failure
  assume "map_of (io s) p = Some opn"
  then have "(p, opn) \<in> set (io s)" by (rule map_of_SomeD)
  then have t: "\<forall>x\<in>set (dump_joined s). fst x \<noteq> p"
    using assms(3) unfolding joined_io_def by force
  show "joined_outcome (complete p opn failure (s\<lparr>io := filter (\<lambda>x. fst x \<noteq> p) (io s)\<rparr>))"
    using assms(1) t
    by (cases opn; cases failure)
       (auto simp: joined_outcome_def fn_defs pouch_get_def split: option.splits dumpfile.splits)
qed (use assms in \<open>auto simp: joined_outcome_def joined_bound_def io_pending_def
       fn_defs split: option.splits\<close>)


lemma dump_stuck_resume:
  assumes "databaseDumpPendingPromise s = Some p" "is_dump_await fr \<longrightarrow> (\<exists>e. out = Rejected e)"
  shows "dump_stuck p s (resume fr out (s\<lparr>awaiting := A\<rparr>))"
proof (cases out)
  case (Fulfilled v)
  with assms show ?thesis
    by (cases fr) (auto simp: dump_stuck_def fn_defs split: option.splits)
next
  case (Rejected e)
  with assms show ?thesis
    by (cases fr) (auto simp: dump_stuck_def fn_defs split: option.splits)
qed

lemma dump_stuck_step:
  assumes "dump_inv s" "databaseDumpPendingPromise s = Some p" "promises s p = Some (Rejected e)"
  shows "dump_stuck p s (step ev s)"
proof (rule step_cases)
  fix k out
  assume a: "k < length (awaiting s)" "promises s (snd (awaiting s ! k)) = Some out"
  have mem: "awaiting s ! k \<in> set (awaiting s)" using a(1) by simp
  show "dump_stuck p s (resume (fst (awaiting s ! k)) out (s\<lparr>awaiting := drop_nth k (awaiting s)\<rparr>))"
  proof (rule dump_stuck_resume[OF assms(2)], rule impI)
    assume "is_dump_await (fst (awaiting s ! k))"
    with assms(1) mem have "databaseDumpPendingPromise s = Some (snd (awaiting s ! k))"
      unfolding dump_inv_def by blast
    with assms(2,3) a(2) show "\<exists>e. out = Rejected e" by auto
  qed
next
  fix p' opn failure
  show "dump_stuck p s (complete p' opn failure (s\<lparr>io := filter (\<lambda>x. fst x \<noteq> p') (io s)\<rparr>))"
    using assms(2)
    by (cases opn; cases failure)
       (auto simp: dump_stuck_def fn_defs pouch_get_def split: option.splits dumpfile.splits)
qed (use assms(2) in \<open>auto simp: dump_stuck_def fn_defs split: option.splits\<close>)

lemma dump_stuck_trans:
  assumes "dump_stuck p s t" "dump_stuck p t u"
  shows "dump_stuck p s u"
proof -
  let ?n = "length (dump_joined s)" and ?m = "length (dump_joined t)"
  have st: "dump_joined t = dump_joined s @ drop ?n (dump_joined t)"
    using assms(1) unfolding dump_stuck_def by (metis append_take_drop_id)
  have tu: "dump_joined u = dump_joined t @ drop ?m (dump_joined u)"
    using assms(2) unfolding dump_stuck_def by (metis append_take_drop_id)
  have su: "dump_joined u = dump_joined s @ (drop ?n (dump_joined t) @ drop ?m (dump_joined u))"
    using st tu by (metis append.assoc)
  have "take ?n (dump_joined u) = dump_joined s"
    by (subst su) simp
  moreover have "drop ?n (dump_joined u) = drop ?n (dump_joined t) @ drop ?m (dump_joined u)"
    by (subst su) simp
  ultimately show ?thesis
    using assms unfolding dump_stuck_def by auto
qed

lemma dump_stuck_refl: "databaseDumpPendingPromise s = Some p \<Longrightarrow> dump_stuck p s s"
  unfolding dump_stuck_def by simp


lemma dump_stuck_run:
  assumes "dump_inv s" "wf s" "databaseDumpPendingPromise s = Some p" "promises s p = Some (Rejected e)"
  shows "dump_stuck p s (run es s)"
  using assms
proof (induction es arbitrary: s)
  case Nil
  then show ?case by (simp add: dump_stuck_refl)
next
  case (Cons ev es)
  have 1: "dump_stuck p s (step ev s)" using Cons.prems by (simp add: dump_stuck_step)
  have "dump_stuck p (step ev s) (run es (step ev s))"
  proof (rule Cons.IH)
    show "dump_inv (step ev s)" using Cons.prems by (simp add: dump_inv_step)
    show "wf (step ev s)" using Cons.prems by (simp add: wf_step)
    show "databaseDumpPendingPromise (step ev s) = Some p" using 1 unfolding dump_stuck_def by simp
    show "promises (step ev s) p = Some (Rejected e)" using Cons.prems by (simp add: promises_mono_step)
  qed
  with 1 show ?case by (simp add: dump_stuck_trans)
qed


lemma dump_ok_step: "dump_ok s \<Longrightarrow> dump_ok (step e s)"
  unfolding dump_ok_def wf_def
  by (simp add: bound_io_step bound_targets_step io_pending_step distinct_io_step
      distinct_targets_step dump_inv_step joined_bound_step joined_io_step joined_frames_step
      joined_outcome_step wf_def)

lemma dump_ok_run: "dump_ok s \<Longrightarrow> dump_ok (run es s)"
  by (induction es arbitrary: s) (simp_all add: dump_ok_step)

lemma dump_ok_reachable: "dump_ok (run es (construct opts local remote fs))"
proof (rule dump_ok_run)
  show "dump_ok (construct opts local remote fs)"
    unfolding dump_ok_def
    by (simp add: wf_construct dump_inv_construct)
       (simp add: joined_bound_def joined_io_def joined_frames_def joined_outcome_def
          construct_def fn_defs)
qed

text \<open>A call of \<open>dump\<close> that finds a settled promise pending returns a promise that settles
  with the same outcome as soon as its adoption runs.\<close>

lemma dump_joins_settled:
  assumes "io_pending s" "databaseDumpPendingPromise s = Some p" "promises s p = Some out"
  shows "promises (run [CallDump, Resume (length (awaiting s))] s) (next_pid s) = Some out"
proof -
  have "promises s (next_pid s) = None"
    using assms(1) unfolding io_pending_def by simp
  moreover have "p \<noteq> next_pid s" using assms(3) calculation by auto
  ultimately show ?thesis
    using assms(2,3) by (simp add: fn_defs drop_nth_def)
qed












section \<open>The dump files\<close>

lemma dump_paths_distinct [simp]:
  "getDumpFilename c ''_new'' \<noteq> getDumpFilename c ''''"
  "getDumpFilename c '''' \<noteq> getDumpFilename c ''_new''"
proof -
  have "length (getDumpFilename c ''_new'') \<noteq> length (getDumpFilename c '''')"
    unfolding getDumpFilename_def by simp
  then show "getDumpFilename c ''_new'' \<noteq> getDumpFilename c ''''"
    "getDumpFilename c '''' \<noteq> getDumpFilename c ''_new''" by auto
qed

lemma config_resume: "config (resume fr out s) = config s"
proof (cases out)
  case (Fulfilled v)
  then show ?thesis by (cases fr) (auto simp: fn_defs split: option.splits)
next
  case (Rejected e)
  then show ?thesis by (cases fr) (auto simp: fn_defs split: option.splits)
qed

lemma config_step: "config (step e s) = config s"
proof (rule step_cases[where P = "\<lambda>t. config t = config s"])
  fix p opn failure
  show "config (complete p opn failure (s\<lparr>io := filter (\<lambda>x. fst x \<noteq> p) (io s)\<rparr>)) = config s"
    by (cases opn; cases failure)
       (auto simp: fn_defs pouch_get_def split: option.splits dumpfile.splits)
qed (auto simp: config_resume, auto simp: fn_defs split: option.splits)

lemma config_run: "config (run es s) = config s"
  by (induction es arbitrary: s) (simp_all add: config_step)

lemma config_reachable: "config (run es (construct opts local remote fs)) = defaults opts"
  by (simp add: config_run) (simp add: construct_def fn_defs)

lemma io_filter_fresh:
  assumes "bound_io s" "next_pid s \<le> p"
  shows "filter (\<lambda>x. fst x \<noteq> p) (io s) = io s" "map_of (io s) p = None"
proof -
  have "\<forall>x\<in>set (io s). fst x \<noteq> p" using assms unfolding bound_io_def by fastforce
  then show "filter (\<lambda>x. fst x \<noteq> p) (io s) = io s" by (simp add: filter_id_conv)
  have "p \<notin> fst ` set (io s)" using assms unfolding bound_io_def by fastforce
  then show "map_of (io s) p = None" by (simp add: map_of_eq_None_iff)
qed


text \<open>Only the end of a rename that has not failed changes the canonical dump file.\<close>

lemma canonical_resume:
  "files (resume fr out s) (getDumpFilename (config s) '''') = files s (getDumpFilename (config s) '''')"
proof (cases out)
  case (Fulfilled v)
  then show ?thesis by (cases fr) (auto simp: fn_defs split: option.splits)
next
  case (Rejected e)
  then show ?thesis by (cases fr) (auto simp: fn_defs split: option.splits)
qed

lemma canonical_frame:
  assumes "\<forall>p. ev = IODone p None \<longrightarrow> map_of (io s) p \<noteq> Some FsRename"
  shows "files (step ev s) (getDumpFilename (config s) '''') = files s (getDumpFilename (config s) '''')"
proof (cases ev)
  case (Resume k)
  then show ?thesis using canonical_resume[of _ _ "s\<lparr>awaiting := drop_nth k (awaiting s)\<rparr>"]
    by (auto split: option.splits)
next
  case (IODone p failure)
  show ?thesis
  proof (cases "map_of (io s) p")
    case None
    then show ?thesis using IODone by simp
  next
    case (Some opn)
    then show ?thesis using IODone assms
      by (cases opn; cases failure)
         (auto simp: fn_defs pouch_get_def split: option.splits dumpfile.splits)
  qed
next
  case NextTick
  then show ?thesis by (auto simp: fn_defs split: nat.splits)
qed (auto simp: fn_defs split: option.splits)













section \<open>Dumping and loading\<close>

text \<open>A call of \<open>dump\<close> that starts a write, the write and the rename going through.\<close>

lemma completed_dump_run:
  assumes "wf s" "databaseDumpPendingPromise s = None"
  shows "let q = next_pid s; w = Suc q; r = Suc w; n = length (awaiting s);
             s1 = run [CallDump, IODone w None, Resume n, IODone r None, Resume n] s
         in promises s1 q = Some (Fulfilled None)
          \<and> files s1 (getDumpFilename (config s) '''') = Some (Snapshot (localDB s))
          \<and> localDB s1 = localDB s"
proof -
  have fresh: "\<forall>p. next_pid s \<le> p \<longrightarrow> promises s p = None"
    using assms(1) unfolding wf_def io_pending_def by blast
  have b: "bound_io s" using assms(1) unfolding wf_def by blast
  note f = io_filter_fresh[OF b, of "Suc (next_pid s)"]
  note g = io_filter_fresh[OF b, of "Suc (Suc (next_pid s))"]
  show ?thesis
    using assms(2) fresh f g
    by (simp add: fn_defs drop_nth_def map_add_def)
qed

text \<open>A call of \<open>load\<close> on a new object with an empty local store and a complete dump file.\<close>

lemma fresh_load_run:
  assumes "fs (getDumpFilename (defaults opts) '''') = Some (Snapshot m)"
  shows "let t = run [CallLoad, IODone 4 None, Resume 2, IODone 5 None, Resume 2]
                   (construct opts Map.empty remote fs)
         in promises t 3 = Some (Fulfilled None) \<and> localDB t = m"
  using assms by (simp add: eval_defs map_add_def)


text \<open>A call of \<open>dump\<close> made while a write is in flight, the write then going through.\<close>

lemma joined_dump_run:
  assumes "wf s" "databaseDumpPendingPromise s = Some w" "map_of (io s) w = Some PouchDump"
    and "k < length (awaiting s)" "awaiting s ! k = (DumpAwaitWrite q0, w)"
  shows "let j = next_pid s; n = length (awaiting s);
             dumpPath = getDumpFilename (config s) '''';
             dumpPathNew = getDumpFilename (config s) ''_new'';
             t = run [CallDump, IODone w None, Resume n] s;
             r = next_pid t;
             t' = step (Resume k) t;
             t'' = step (IODone r None) t'
         in dump_joined (step CallDump s) = dump_joined s @ [(j, w)]
          \<and> awaiting (step CallDump s) = awaiting s @ [(Adopt j, w)]
          \<and> io (step CallDump s) = io s
          \<and> promises t w = Some (Fulfilled None)
          \<and> promises t j = Some (Fulfilled None)
          \<and> files t dumpPath = files s dumpPath
          \<and> files t dumpPathNew = Some (Snapshot (localDB s))
          \<and> io t = filter (\<lambda>x. fst x \<noteq> w) (io s)
          \<and> log t = log s
          \<and> dump_renamed t = dump_renamed s
          \<and> io t' = io t @ [(r, FsRename)]
          \<and> log t' = log s @ [SnapshotRename]
          \<and> dump_renamed t' = dump_renamed s @ [(q0, r)]
          \<and> files t' dumpPath = files s dumpPath
          \<and> files t'' dumpPath = Some (Snapshot (localDB s))"
proof -
  have fresh: "\<forall>p. next_pid s \<le> p \<longrightarrow> promises s p = None"
    using assms(1) unfolding wf_def io_pending_def by blast
  have b: "bound_io s" using assms(1) unfolding wf_def by blast
  have win: "(w, PouchDump) \<in> set (io s)" using assms(3) by (rule map_of_SomeD)
  then have wlt: "w < next_pid s" using b unfolding bound_io_def by fastforce
  have wnone: "promises s w = None"
    using win assms(1) unfolding wf_def io_pending_def by fastforce
  have bf: "\<forall>x\<in>set (filter (\<lambda>x. fst x \<noteq> w) (io s)). fst x \<noteq> Suc (next_pid s)"
    using b unfolding bound_io_def by fastforce
  then have f1: "filter (\<lambda>x. fst x \<noteq> Suc (next_pid s)) (filter (\<lambda>x. fst x \<noteq> w) (io s))
      = filter (\<lambda>x. fst x \<noteq> w) (io s)"
    by (simp only: filter_id_conv)
  have "Suc (next_pid s) \<notin> fst ` set (filter (\<lambda>x. fst x \<noteq> w) (io s))" using bf by fastforce
  then have f2: "map_of (filter (\<lambda>x. fst x \<noteq> w) (io s)) (Suc (next_pid s)) = None"
    by (simp add: map_of_eq_None_iff)
  show ?thesis
    using assms(2,3,4,5) fresh wlt wnone f1 f2
    by (simp add: fn_defs drop_nth_def map_add_def)
qed



section \<open>Concurrent dumps\<close>











section \<open>A failed dump\<close>

text \<open>
  C9. After a call of \<open>dump\<close> whose write has failed, the handle kept in
  \<open>databaseDumpPendingPromise\<close> is never cleared. Stated for any run \<open>es\<close> from the
  constructor that ends with the handle holding a rejected promise \<open>p\<close>, and any
  continuation \<open>es'\<close> of it: the handle still holds \<open>p\<close>, still rejected with the same
  error; no snapshot write has been started in between and no call of \<open>dump\<close> has started
  one (the scheduler's calls included, which are steps of the run like any other); every
  call of \<open>dump\<close> made in between has joined \<open>p\<close>, and the promise it returned is, once
  settled, rejected with that error; and one more call of \<open>dump\<close> returns a promise that
  is rejected with that error as soon as its adoption of \<open>p\<close> runs.
\<close>

theorem c9_failed_dump_is_never_retried:
  assumes "databaseDumpPendingPromise (run es (construct opts local remote fs)) = Some p"
    and "promises (run es (construct opts local remote fs)) p = Some (Rejected e)"
  shows "let s = run es (construct opts local remote fs); s' = run es' s in
           databaseDumpPendingPromise s' = Some p
         \<and> promises s' p = Some (Rejected e)
         \<and> count_list (log s') SnapshotWrite = count_list (log s) SnapshotWrite
         \<and> dump_started s' = dump_started s
         \<and> (\<forall>x\<in>set (drop (length (dump_joined s)) (dump_joined s')).
               snd x = p \<and> (\<forall>out. promises s' (fst x) = Some out \<longrightarrow> out = Rejected e))
         \<and> promises (run [CallDump, Resume (length (awaiting s'))] s') (next_pid s')
             = Some (Rejected e)"
proof -
  let ?s = "run es (construct opts local remote fs)"
  let ?s' = "run es' ?s"
  have ok: "dump_ok ?s" by (rule dump_ok_reachable)
  have ok': "dump_ok ?s'" using ok by (rule dump_ok_run)
  have stuck: "dump_stuck p ?s ?s'"
    using ok assms unfolding dump_ok_def by (simp add: dump_stuck_run)
  have p': "promises ?s' p = Some (Rejected e)"
    using assms(2) by (rule promises_mono_run)
  have pend: "databaseDumpPendingPromise ?s' = Some p"
    using stuck unfolding dump_stuck_def by simp
  have later: "\<forall>x\<in>set (drop (length (dump_joined ?s)) (dump_joined ?s')).
               snd x = p \<and> (\<forall>out. promises ?s' (fst x) = Some out \<longrightarrow> out = Rejected e)"
  proof
    fix x assume x: "x \<in> set (drop (length (dump_joined ?s)) (dump_joined ?s'))"
    then have sx: "snd x = p" using stuck unfolding dump_stuck_def by blast
    from x have "x \<in> set (dump_joined ?s')" by (rule in_set_dropD)
    then have "\<forall>out. promises ?s' (fst x) = Some out \<longrightarrow> promises ?s' (snd x) = Some out"
      using ok' unfolding dump_ok_def joined_outcome_def by blast
    with sx p' show "snd x = p \<and> (\<forall>out. promises ?s' (fst x) = Some out \<longrightarrow> out = Rejected e)"
      by auto
  qed
  have again: "promises (run [CallDump, Resume (length (awaiting ?s'))] ?s') (next_pid ?s')
             = Some (Rejected e)"
    using ok' pend p' unfolding dump_ok_def wf_def by (simp only: dump_joins_settled)
  show ?thesis
    using stuck p' later again unfolding dump_stuck_def Let_def by simp
qed

theorem c9_failed_dump_is_never_retried_witness:
  "let s = run [CallDump, IODone 4 (Some IOError), Resume 2]
             (construct no_options Map.empty Map.empty Map.empty);
       s' = run [CallDump, Resume 2, Advance 3] s
   in databaseDumpPendingPromise s = Some 4
    \<and> promises s 4 = Some (Rejected IOError)
    \<and> databaseDumpPendingPromise s' = Some 4
    \<and> dump_joined s' = [(5, 4)]
    \<and> promises s' 5 = Some (Rejected IOError)"
proof -
  let ?s = "run [CallDump, IODone 4 (Some IOError), Resume 2]
             (construct no_options Map.empty Map.empty Map.empty)"
  let ?s' = "run [CallDump, Resume 2, Advance 3] ?s"
  have 1: "databaseDumpPendingPromise ?s = Some 4"
    unfolding no_options_def by (simp add: model_defs)
  have 2: "promises ?s 4 = Some (Rejected IOError)"
    unfolding no_options_def by (simp add: model_defs)
  note t = c9_failed_dump_is_never_retried[OF 1 2, of "[CallDump, Resume 2, Advance 3]",
      unfolded Let_def]
  have 3: "databaseDumpPendingPromise ?s' = Some 4" using t by (rule conjunct1)
  have 4: "dump_joined ?s' = [(5, 4)]"
    unfolding no_options_def by (simp add: model_defs)
  have 5: "promises ?s' 5 = Some (Rejected IOError)"
    unfolding no_options_def by (simp add: model_defs)
  show ?thesis unfolding Let_def using 1 2 3 4 5 by (intro conjI)
qed


section \<open>Reading a document\<close>

text \<open>On a synced object, \<open>get\<close> returns the body that the local store holds.\<close>

lemma get_on_synced:
  assumes "wf s" "synced s" "localDB s ident = Some b"
  shows "promises (run (get_run (length (awaiting s)) (next_pid s) ident) s) (next_pid s)
         = Some (Fulfilled (Some b))"
proof -
  have fresh: "\<forall>p. next_pid s \<le> p \<longrightarrow> promises s p = None"
    using assms(1) unfolding wf_def io_pending_def by blast
  have "\<forall>x\<in>set (io s). fst x < next_pid s"
    using assms(1) unfolding wf_def bound_io_def by blast
  then have "Suc (Suc (next_pid s)) \<notin> fst ` set (io s)" by fastforce
  then have nokey: "map_of (io s) (Suc (Suc (next_pid s))) = None"
    by (simp add: map_of_eq_None_iff)
  show ?thesis
    using assms(2,3) fresh nokey
    by (simp add: eval_defs map_add_def)
qed

text \<open>
  C1. For every document id present on the remote source before the first \<open>init\<close>, after
  \<open>init\<close> has resolved, \<open>get(id)\<close> returns a body equal to the remote source's value for
  that id. Stated for any options, any content of the local store, of the remote source
  and of the dump directory, and any id \<open>ident\<close> that the remote source holds with body
  \<open>b\<close>: without a dump file (first part) and with a complete one, whatever it holds (second
  part), the first call of \<open>init\<close> returns promise 3, which is fulfilled at the end of the
  synchronisation, and the promise that the following call \<open>get(ident)\<close> returns is
  fulfilled with \<open>b\<close>.
\<close>

theorem c1_get_returns_remote_body:
  assumes "remote ident = Some b"
  shows "(fs (getDumpFilename (defaults opts) '''') = None \<longrightarrow>
            (let s = run cold_sync (construct opts local remote fs)
             in init_results s = [3] \<and> promises s 3 = Some (Fulfilled None)
                \<and> promises (run (get_run 2 11 ident) s) 11 = Some (Fulfilled (Some b))))
       \<and> (\<forall>m. fs (getDumpFilename (defaults opts) '''') = Some (Snapshot m) \<longrightarrow>
            (let s = run warm_sync (construct opts local remote fs)
             in init_results s = [3] \<and> promises s 3 = Some (Fulfilled None)
                \<and> promises (run (get_run 2 12 ident) s) 12 = Some (Fulfilled (Some b))))"
  using assms by (simp add: eval_defs map_add_def)

theorem c1_get_returns_remote_body_witness:
  "two_rides ''A'' = Some ''OPERATING''
   \<and> promises (run (get_run 2 11 ''A'')
        (run cold_sync (construct no_options Map.empty two_rides Map.empty))) 11
       = Some (Fulfilled (Some ''OPERATING''))
   \<and> promises (run (get_run 2 12 ''A'')
        (run warm_sync (construct no_options [''A'' \<mapsto> ''STALE''] two_rides
           [getDumpFilename (defaults no_options) '''' \<mapsto> Snapshot [''A'' \<mapsto> ''DOWN'']]))) 12
       = Some (Fulfilled (Some ''OPERATING''))"
proof -
  have h: "two_rides ''A'' = Some ''OPERATING''" by (simp add: two_rides_def)
  have 1: "promises (run (get_run 2 11 ''A'')
        (run cold_sync (construct no_options Map.empty two_rides Map.empty))) 11
       = Some (Fulfilled (Some ''OPERATING''))"
    using c1_get_returns_remote_body[where remote = two_rides and ident = "''A''"
        and b = "''OPERATING''" and fs = Map.empty and opts = no_options and local = Map.empty,
        OF h, unfolded Let_def]
    by simp
  have 2: "promises (run (get_run 2 12 ''A'')
        (run warm_sync (construct no_options [''A'' \<mapsto> ''STALE''] two_rides
           [getDumpFilename (defaults no_options) '''' \<mapsto> Snapshot [''A'' \<mapsto> ''DOWN'']]))) 12
       = Some (Fulfilled (Some ''OPERATING''))"
    using c1_get_returns_remote_body[where remote = two_rides and ident = "''A''"
        and b = "''OPERATING''" and opts = no_options and local = "[''A'' \<mapsto> ''STALE'']"
        and fs = "[getDumpFilename (defaults no_options) '''' \<mapsto> Snapshot [''A'' \<mapsto> ''DOWN'']]",
        OF h, unfolded Let_def]
    by simp
  show ?thesis using h 1 2 by (intro conjI)
qed

section \<open>A dump that fails\<close>





text \<open>
  C5. A completed \<open>dump\<close> followed by a \<open>load\<close> of the written file into a fresh local
  store gives back the content the store had at the dump. Stated for the state \<open>s\<close> at the
  end of any run \<open>es\<close> from the constructor in which no dump is pending: \<open>dump\<close> is called
  and returns \<open>q\<close>, the write \<open>w\<close> and the rename \<open>r\<close> go through, and \<open>q\<close> is fulfilled
  (\<open>s1\<close>); the canonical file is then a snapshot of the local store of \<open>s\<close>. A new object
  with the same options is constructed on the files of \<open>s1\<close>, with an empty local store and
  any remote source \<open>remote'\<close>, and \<open>load\<close> is called on it and runs to its end (\<open>t\<close>): the
  promise it returned is fulfilled and the local store of \<open>t\<close> is the local store of \<open>s\<close>.
\<close>

theorem c5_dump_then_load_round_trip:
  assumes "databaseDumpPendingPromise (run es (construct opts local remote fs)) = None"
  shows "let s = run es (construct opts local remote fs);
             q = next_pid s; w = Suc q; r = Suc w; n = length (awaiting s);
             s1 = run [CallDump, IODone w None, Resume n, IODone r None, Resume n] s;
             t = run [CallLoad, IODone 4 None, Resume 2, IODone 5 None, Resume 2]
                   (construct opts Map.empty remote' (files s1))
         in promises s1 q = Some (Fulfilled None)
          \<and> files s1 (getDumpFilename (defaults opts) '''') = Some (Snapshot (localDB s))
          \<and> promises t 3 = Some (Fulfilled None)
          \<and> localDB t = localDB s"
proof -
  let ?s = "run es (construct opts local remote fs)"
  have w: "wf ?s" by (rule wf_reachable)
  have cfg: "config ?s = defaults opts" by (rule config_reachable)
  note d = completed_dump_run[OF w assms, unfolded Let_def cfg]
  let ?s1 = "run [CallDump, IODone (Suc (next_pid ?s)) None, Resume (length (awaiting ?s)),
      IODone (Suc (Suc (next_pid ?s))) None, Resume (length (awaiting ?s))] ?s"
  have f: "files ?s1 (getDumpFilename (defaults opts) '''') = Some (Snapshot (localDB ?s))"
    using d by blast
  note l = fresh_load_run[where fs = "files ?s1" and opts = opts and remote = remote', OF f,
      unfolded Let_def]
  show ?thesis unfolding Let_def using d l by blast
qed


theorem c5_dump_then_load_round_trip_witness:
  "databaseDumpPendingPromise (run cold_sync (construct no_options Map.empty two_rides Map.empty)) = None
   \<and> localDB (run cold_sync (construct no_options Map.empty two_rides Map.empty)) = two_rides
   \<and> localDB (run [CallLoad, IODone 4 None, Resume 2, IODone 5 None, Resume 2]
        (construct no_options Map.empty Map.empty
          (files (run [CallDump, IODone (Suc 11) None, Resume 2, IODone (Suc (Suc 11)) None, Resume 2]
             (run cold_sync (construct no_options Map.empty two_rides Map.empty))))))
       = two_rides"
proof -
  let ?s = "run cold_sync (construct no_options Map.empty two_rides Map.empty)"
  have h1: "databaseDumpPendingPromise ?s = None"
    unfolding no_options_def by (simp add: eval_defs map_add_def)
  have np: "next_pid ?s = 11"
    unfolding no_options_def by (simp add: eval_defs map_add_def)
  have la: "length (awaiting ?s) = 2"
    unfolding no_options_def by (simp add: eval_defs map_add_def)
  have ldb: "localDB ?s = two_rides"
    unfolding no_options_def by (simp add: eval_defs map_add_def)
  note t = c5_dump_then_load_round_trip[where remote' = Map.empty, OF h1, unfolded Let_def np la ldb]
  have h2: "localDB (run [CallLoad, IODone 4 None, Resume 2, IODone 5 None, Resume 2]
        (construct no_options Map.empty Map.empty
          (files (run [CallDump, IODone (Suc 11) None, Resume 2, IODone (Suc (Suc 11)) None, Resume 2] ?s))))
       = two_rides"
    using t by blast
  show ?thesis using h1 ldb h2 by (intro conjI)
qed


section \<open>Joining a dump in flight\<close>

text \<open>
  C10. A caller of \<open>dump\<close> that joins a dump in flight gets a promise that resolves as
  soon as the write to the new file is done, before that file is renamed over the canonical
  one; only the call that started the dump performs the rename. Stated for the state \<open>s\<close>
  at the end of any run \<open>es\<close> from the constructor in which the write \<open>w\<close> is pending and
  in flight and the \<open>k\<close>-th suspended body is the body of the call \<open>q0\<close> of \<open>dump\<close> that
  waits for \<open>w\<close>. A further call of \<open>dump\<close> returns \<open>j\<close>, is recorded as having joined
  \<open>w\<close>, starts no operation and leaves only the adoption of \<open>w\<close> by \<open>j\<close> behind. Once the
  write has gone through and that adoption has run (\<open>t\<close>), \<open>j\<close> is fulfilled, while the
  canonical file is still the one of \<open>s\<close>, the new file holds the snapshot, and no rename
  has been started. The rename \<open>r\<close> is started when the body of \<open>q0\<close> goes on (\<open>t'\<close>), and
  is recorded for \<open>q0\<close>; the canonical file holds the snapshot only when \<open>r\<close> is done
  (\<open>t''\<close>).
\<close>

theorem c10_joined_dump_resolves_before_rename:
  assumes "databaseDumpPendingPromise (run es (construct opts local remote fs)) = Some w"
    and "map_of (io (run es (construct opts local remote fs))) w = Some PouchDump"
    and "k < length (awaiting (run es (construct opts local remote fs)))"
    and "awaiting (run es (construct opts local remote fs)) ! k = (DumpAwaitWrite q0, w)"
  shows "let s = run es (construct opts local remote fs);
             j = next_pid s; n = length (awaiting s);
             dumpPath = getDumpFilename (defaults opts) '''';
             dumpPathNew = getDumpFilename (defaults opts) ''_new'';
             t = run [CallDump, IODone w None, Resume n] s;
             r = next_pid t;
             t' = step (Resume k) t;
             t'' = step (IODone r None) t'
         in dump_joined (step CallDump s) = dump_joined s @ [(j, w)]
          \<and> awaiting (step CallDump s) = awaiting s @ [(Adopt j, w)]
          \<and> io (step CallDump s) = io s
          \<and> promises t w = Some (Fulfilled None)
          \<and> promises t j = Some (Fulfilled None)
          \<and> files t dumpPath = files s dumpPath
          \<and> files t dumpPathNew = Some (Snapshot (localDB s))
          \<and> io t = filter (\<lambda>x. fst x \<noteq> w) (io s)
          \<and> log t = log s
          \<and> dump_renamed t = dump_renamed s
          \<and> io t' = io t @ [(r, FsRename)]
          \<and> log t' = log s @ [SnapshotRename]
          \<and> dump_renamed t' = dump_renamed s @ [(q0, r)]
          \<and> files t' dumpPath = files s dumpPath
          \<and> files t'' dumpPath = Some (Snapshot (localDB s))"
proof -
  let ?s = "run es (construct opts local remote fs)"
  have w: "wf ?s" by (rule wf_reachable)
  have cfg: "config ?s = defaults opts" by (rule config_reachable)
  show ?thesis
    using joined_dump_run[OF w assms, unfolded cfg Let_def] unfolding Let_def .
qed

theorem c10_joined_dump_resolves_before_rename_witness:
  "databaseDumpPendingPromise (run [CallDump] (construct no_options two_rides Map.empty Map.empty)) = Some 4
   \<and> io (run [CallDump] (construct no_options two_rides Map.empty Map.empty))
       = [(2, Timer 900000), (4, PouchDump)]
   \<and> awaiting (run [CallDump] (construct no_options two_rides Map.empty Map.empty)) ! 2
       = (DumpAwaitWrite 3, 4)
   \<and> promises (run [CallDump, IODone 4 None, Resume 3]
         (run [CallDump] (construct no_options two_rides Map.empty Map.empty))) 5
       = Some (Fulfilled None)
   \<and> files (run [CallDump] (construct no_options two_rides Map.empty Map.empty))
         (getDumpFilename (defaults no_options) '''') = None
   \<and> files (run [CallDump, IODone 4 None, Resume 3]
         (run [CallDump] (construct no_options two_rides Map.empty Map.empty)))
         (getDumpFilename (defaults no_options) '''') = None
   \<and> files (run [CallDump, IODone 4 None, Resume 3]
         (run [CallDump] (construct no_options two_rides Map.empty Map.empty)))
         (getDumpFilename (defaults no_options) ''_new'') = Some (Snapshot two_rides)"
proof -
  let ?s = "run [CallDump] (construct no_options two_rides Map.empty Map.empty)"
  have h1: "databaseDumpPendingPromise ?s = Some 4"
    unfolding no_options_def by (simp add: eval_defs)
  have hio: "io ?s = [(2, Timer 900000), (4, PouchDump)]"
    unfolding no_options_def by (simp add: eval_defs defaults_def or_nat_def)
  have h2: "map_of (io ?s) 4 = Some PouchDump"
    unfolding hio by simp
  have h3: "2 < length (awaiting ?s)"
    unfolding no_options_def by (simp add: eval_defs)
  have h4: "awaiting ?s ! 2 = (DumpAwaitWrite 3, 4)"
    unfolding no_options_def by (simp add: eval_defs)
  have np: "next_pid ?s = 5"
    unfolding no_options_def by (simp add: eval_defs)
  have la: "length (awaiting ?s) = 3"
    unfolding no_options_def by (simp add: eval_defs)
  have ldb: "localDB ?s = two_rides"
    unfolding no_options_def by (simp add: eval_defs)
  have fc: "files ?s (getDumpFilename (defaults no_options) '''') = None"
    unfolding no_options_def by (simp add: eval_defs)
  note t = c10_joined_dump_resolves_before_rename[OF h1 h2 h3 h4, unfolded Let_def np la ldb fc]
  have c1: "promises (run [CallDump, IODone 4 None, Resume 3] ?s) 5 = Some (Fulfilled None)"
    using t by blast
  have c2: "files (run [CallDump, IODone 4 None, Resume 3] ?s)
         (getDumpFilename (defaults no_options) '''') = None"
    using t by blast
  have c3: "files (run [CallDump, IODone 4 None, Resume 3] ?s)
         (getDumpFilename (defaults no_options) ''_new'') = Some (Snapshot two_rides)"
    using t by blast
  show ?thesis using h1 hio h4 c1 fc c2 c3 by (intro conjI)
qed







end
